theory Spec2Isabelle
  imports Main
begin

section \<open>Data model of \<open>morepath/publish.py\<close>\<close>

text \<open>
  Python objects with identity are kept in a store. An application instance is named
  by a reference; the store maps every reference to the fields of the instance. Of an
  application this module touches \<open>parent\<close> (written on a mount transition) and
  \<open>config.path_registry\<close> (read before each \<open>consume\<close>). The type \<open>'r\<close> is the
  path registry, which this module never looks into.
\<close>

type_synonym app_id = nat

record 'r config =
  path_registry :: 'r

record 'r App =
  parent :: "app_id option"
  config :: "'r config"

text \<open>
  The request: \<open>unconsumed\<close> is the stack of path segments still to be resolved,
  \<open>app\<close> the application currently responsible, \<open>view_name\<close> a string or Python's
  \<open>None\<close>. \<open>environ\<close> is the WSGI environment that the request wraps (request
  method, headers and so on): what a request holds besides the three attributes that
  this module reads and assigns.
\<close>

record request =
  unconsumed :: "string list"
  app :: app_id
  view_name :: "string option"
  environ :: "(string \<times> string) list"

text \<open>
  What \<open>consume\<close> hands back: \<open>None\<close>, an instance of \<open>App\<close>, or any other object.
  \<open>isinstance(next, App)\<close> is the test for the constructor \<open>AppRef\<close>.
\<close>

datatype 'o pyobj = PyNone | AppRef app_id | Obj 'o

text \<open>
  The mutable state that the collaborators (path registry, view registry) can reach
  from the request they are given: the request itself and the application instances.
\<close>

record 'r world =
  req :: request
  apps :: "app_id \<Rightarrow> 'r App"

text \<open>
  Calls that leave this module are recorded in a log kept beside the world, where the
  collaborators cannot reach it: \<open>ConsumeCall a\<close> is
  \<open>a.config.path_registry.consume(request)\<close>, \<open>GetViewCall a obj\<close> is
  \<open>a.get_view(obj, request)\<close>.
\<close>

datatype 'o call = ConsumeCall app_id | GetViewCall app_id "'o pyobj"

type_synonym ('r, 'o) state = "'r world \<times> 'o call list"

text \<open>
  \<open>HTTPNotFound\<close> is the exception of \<open>webob.exc\<close>; \<open>Failure\<close> stands for any other
  exception a view handler raises.
\<close>

datatype error = HTTPNotFound | Failure string

text \<open>
  The two collaborators are parameters. \<open>consume\<close> receives the path registry and the
  world and returns its result with the world as it left it; \<open>get_view\<close> receives the
  application it is a method of, the model object and the world, and returns a response
  or raises. Of \<open>consume\<close> only its three kinds of result are modelled, as its contract
  has them; an exception out of a path registry is not.
\<close>

type_synonym ('r, 'o) consume = "'r \<Rightarrow> 'r world \<Rightarrow> 'o pyobj \<times> 'r world"

type_synonym ('r, 'o, 'resp) get_view =
  "app_id \<Rightarrow> 'o pyobj \<Rightarrow> 'r world \<Rightarrow> (error + 'resp) \<times> 'r world"

section \<open>View names\<close>

definition DEFAULT_NAME :: string where
  "DEFAULT_NAME = ''''"

text \<open>Python's \<open>str.lstrip(chars)\<close>: drop leading characters that occur in \<open>chars\<close>.\<close>

definition lstrip :: "string \<Rightarrow> string \<Rightarrow> string" where
  "lstrip chars s = dropWhile (\<lambda>c. c \<in> set chars) s"

text \<open>
  \<open>get_view_name(stack)\<close>. The result \<open>None\<close> is Python's \<open>None\<close>. The index \<open>0\<close>
  is read only when the length is one.
\<close>

definition get_view_name :: "string list \<Rightarrow> string option" where
  "get_view_name stack =
     (let unconsumed_amount = length stack in
      if unconsumed_amount = 0 then Some DEFAULT_NAME
      else if unconsumed_amount = 1 then Some (lstrip ''+'' (stack ! 0))
      else None)"

section \<open>Resolving the model object\<close>

text \<open>The registry read by \<open>app.config.path_registry\<close> in the world \<open>w\<close>.\<close>

definition registry_of :: "'r world \<Rightarrow> app_id \<Rightarrow> 'r" where
  "registry_of w a = path_registry (config (apps w a))"

text \<open>\<open>next.parent = app\<close>\<close>

definition set_parent :: "app_id \<Rightarrow> app_id \<Rightarrow> 'r world \<Rightarrow> 'r world" where
  "set_parent nxt a w = w\<lparr>apps := (apps w)(nxt := (apps w nxt)\<lparr>parent := Some a\<rparr>)\<rparr>"

text \<open>\<open>request.app = next\<close>\<close>

definition set_app :: "app_id \<Rightarrow> 'r world \<Rightarrow> 'r world" where
  "set_app nxt w = w\<lparr>req := (req w)\<lparr>app := nxt\<rparr>\<rparr>"

text \<open>\<open>request.view_name = v\<close>\<close>

definition set_view_name :: "string option \<Rightarrow> 'r world \<Rightarrow> 'r world" where
  "set_view_name v w = w\<lparr>req := (req w)\<lparr>view_name := v\<rparr>\<rparr>"

text \<open>
  How the \<open>while\<close> loop of \<open>resolve_model\<close> is left: by \<open>return next\<close>, by \<open>break\<close>,
  or because its condition \<open>request.unconsumed\<close> is false.
\<close>

datatype 'o loop_exit = LoopReturn "'o pyobj" | LoopBreak | LoopDone

text \<open>
  The loop, with the local variable \<open>app\<close> as the argument \<open>a\<close>. Nothing in the loop
  bounds the number of iterations, so the function is partial: \<open>None\<close> means that the
  loop runs forever.
\<close>

partial_function (option) resolve_loop ::
  "('r, 'o) consume \<Rightarrow> app_id \<Rightarrow> ('r, 'o) state \<Rightarrow>
     ('o loop_exit \<times> app_id \<times> ('r, 'o) state) option"
where
  "resolve_loop consume a s =
     (if unconsumed (req (fst s)) \<noteq> [] then
        (case consume (registry_of (fst s) a) (fst s) of (nxt, w1) \<Rightarrow>
           (case nxt of
              PyNone \<Rightarrow> Some (LoopBreak, a, (w1, snd s @ [ConsumeCall a]))
            | Obj x \<Rightarrow> Some (LoopReturn (Obj x), a, (w1, snd s @ [ConsumeCall a]))
            | AppRef b \<Rightarrow>
                resolve_loop consume b
                  (set_app b (set_parent b a w1), snd s @ [ConsumeCall a])))
      else Some (LoopDone, a, s))"

declare resolve_loop.simps [code]

text \<open>
  \<open>resolve_model(request)\<close>: the loop started at \<open>request.app\<close>, then the code after
  the loop, which is reached after \<open>break\<close> and after the condition failed alike.
\<close>

definition resolve_model ::
  "('r, 'o) consume \<Rightarrow> ('r, 'o) state \<Rightarrow> ('o pyobj \<times> ('r, 'o) state) option"
where
  "resolve_model consume s =
     (case resolve_loop consume (app (req (fst s))) s of
        None \<Rightarrow> None
      | Some (LoopReturn nxt, a, s1) \<Rightarrow> Some (nxt, s1)
      | Some (_, a, (w1, log1)) \<Rightarrow>
          if unconsumed (req w1) = [] then
            (case consume (registry_of w1 a) w1 of
               (obj, w2) \<Rightarrow> Some (obj, (w2, log1 @ [ConsumeCall a])))
          else Some (PyNone, (w1, log1)))"

section \<open>Resolving the response\<close>

definition resolve_response ::
  "('r, 'o, 'resp) get_view \<Rightarrow> 'o pyobj \<Rightarrow> ('r, 'o) state \<Rightarrow>
     (error + 'resp) \<times> ('r, 'o) state"
where
  "resolve_response get_view obj s =
     (case s of (w, log) \<Rightarrow>
        let view_name' = get_view_name (unconsumed (req w));
            w1 = set_view_name view_name' w
        in if view_name' = None then (Inl HTTPNotFound, (w1, log))
           else (case get_view (app (req w1)) obj w1 of
                   (r, w2) \<Rightarrow> (r, (w2, log @ [GetViewCall (app (req w1)) obj]))))"

definition publish ::
  "('r, 'o) consume \<Rightarrow> ('r, 'o, 'resp) get_view \<Rightarrow> ('r, 'o) state \<Rightarrow>
     ((error + 'resp) \<times> ('r, 'o) state) option"
where
  "publish consume get_view s =
     (case resolve_model consume s of
        None \<Rightarrow> None
      | Some (obj, s1) \<Rightarrow> Some (resolve_response get_view obj s1))"

section \<open>Contracts of the collaborators\<close>

text \<open>
  A path registry that pops at least one segment whenever it hands back an
  application (a mount point takes up part of the path).
\<close>

definition consumes_on_mount :: "('r, 'o) consume \<Rightarrow> bool" where
  "consumes_on_mount consume \<longleftrightarrow>
     (\<forall>r w b. fst (consume r w) = AppRef b \<longrightarrow>
        length (unconsumed (req (snd (consume r w)))) < length (unconsumed (req w)))"

text \<open>Collaborators that write no field of any application instance.\<close>

definition consume_keeps_apps :: "('r, 'o) consume \<Rightarrow> bool" where
  "consume_keeps_apps consume \<longleftrightarrow> (\<forall>r w. apps (snd (consume r w)) = apps w)"

definition get_view_keeps_apps :: "('r, 'o, 'resp) get_view \<Rightarrow> bool" where
  "get_view_keeps_apps get_view \<longleftrightarrow> (\<forall>a obj w. apps (snd (get_view a obj w)) = apps w)"




text \<open>Collaborators that leave the WSGI environment of the request alone.\<close>

definition consume_keeps_environ :: "('r, 'o) consume \<Rightarrow> bool" where
  "consume_keeps_environ consume \<longleftrightarrow>
     (\<forall>r w. environ (req (snd (consume r w))) = environ (req w))"

definition get_view_keeps_environ :: "('r, 'o, 'resp) get_view \<Rightarrow> bool" where
  "get_view_keeps_environ get_view \<longleftrightarrow>
     (\<forall>a obj w. environ (req (snd (get_view a obj w))) = environ (req w))"

section \<open>The chain of applications that a run visits\<close>

text \<open>
  These definitions describe a run from outside; they are not part of the module. The
  applications whose registries were asked to \<open>consume\<close>, in the order of the calls:
\<close>

fun consume_targets :: "'o call list \<Rightarrow> app_id list" where
  "consume_targets [] = []"
| "consume_targets (ConsumeCall a # cs) = a # consume_targets cs"
| "consume_targets (GetViewCall a obj # cs) = consume_targets cs"

text \<open>
  The applications that were current in the loop, in order, read off the loop's calls
  and its exit. Every iteration calls \<open>consume\<close> on the current application; when the
  loop is left because the stack is empty, the application \<open>a\<close> that is current then
  has not been asked yet. Two neighbours in this list are a mount transition: the
  second was returned by the registry of the first.
\<close>

definition visited :: "'o call list \<Rightarrow> 'o loop_exit \<Rightarrow> app_id \<Rightarrow> app_id list" where
  "visited calls ex a = consume_targets calls @ (if ex = LoopDone then [a] else [])"

text \<open>
  The store of applications after \<open>next.parent = app\<close> has been executed for every pair
  of neighbours of a chain, in order.
\<close>

fun write_parents :: "app_id list \<Rightarrow> (app_id \<Rightarrow> 'r App) \<Rightarrow> (app_id \<Rightarrow> 'r App)" where
  "write_parents (a # b # rest) st =
     write_parents (b # rest) (st(b := (st b)\<lparr>parent := Some a\<rparr>))"
| "write_parents [a] st = st"
| "write_parents [] st = st"

text \<open>
  \<open>b\<close> can be mounted from \<open>a\<close>: in some world with segments left, the registry of
  \<open>a\<close> returns the application \<open>b\<close>.
\<close>

definition is_mount :: "('r, 'o) consume \<Rightarrow> app_id \<Rightarrow> app_id \<Rightarrow> bool" where
  "is_mount consume a b \<longleftrightarrow>
     (\<exists>w0. unconsumed (req w0) \<noteq> [] \<and> fst (consume (registry_of w0 a) w0) = AppRef b)"

section \<open>Sample applications and requests\<close>

text \<open>
  Application \<open>i\<close> has no parent yet and owns path registry \<open>i\<close>. A request
  starts at application \<open>0\<close> with the given segments, the next one to consume first,
  and is a \<open>GET\<close> request.
\<close>

definition fresh_apps :: "app_id \<Rightarrow> nat App" where
  "fresh_apps i = \<lparr>parent = None, config = \<lparr>path_registry = i\<rparr>\<rparr>"

definition start :: "string list \<Rightarrow> nat world" where
  "start segs =
     \<lparr>req = \<lparr>unconsumed = segs, app = 0, view_name = None,
              environ = [(''REQUEST_METHOD'', ''GET'')]\<rparr>,
      apps = fresh_apps\<rparr>"

definition pop_segment :: "'r world \<Rightarrow> 'r world" where
  "pop_segment w = w\<lparr>req := (req w)\<lparr>unconsumed := tl (unconsumed (req w))\<rparr>\<rparr>"

text \<open>
  Registry \<open>0\<close> mounts application \<open>1\<close> at \<open>sub\<close>; registry \<open>1\<close> has a root object
  and an object at \<open>item\<close>.
\<close>

definition mount_consume :: "(nat, string) consume" where
  "mount_consume r w =
     (case unconsumed (req w) of
        [] \<Rightarrow> (if r = 1 then (Obj ''root'', w) else (PyNone, w))
      | seg # rest \<Rightarrow>
          if r = 0 \<and> seg = ''sub'' then (AppRef 1, pop_segment w)
          else if r = 1 \<and> seg = ''item'' then (Obj ''item'', pop_segment w)
          else (PyNone, w))"

text \<open>A registry that hands back application \<open>0\<close> and pops nothing.\<close>

definition self_mount_consume :: "(nat, string) consume" where
  "self_mount_consume r w = (AppRef 0, w)"

text \<open>
  A registry that, given segments, pops all of them and signals not-found, and that
  has a root object for the empty stack.
\<close>

definition draining_consume :: "(nat, string) consume" where
  "draining_consume r w =
     (case unconsumed (req w) of
        [] \<Rightarrow> (Obj ''root'', w)
      | seg # rest \<Rightarrow> (PyNone, w\<lparr>req := (req w)\<lparr>unconsumed := []\<rparr>\<rparr>))"

text \<open>A view registry whose handler answers with the view name, for any object.\<close>

definition echo_view :: "(nat, string, string) get_view" where
  "echo_view a obj w =
     (case view_name (req w) of None \<Rightarrow> (Inl (Failure ''no view name''), w)
      | Some n \<Rightarrow> (Inr n, w))"

text \<open>A registry without mounts that has a root object and pops nothing.\<close>

definition leaf_consume :: "(nat, string) consume" where
  "leaf_consume r w = (if unconsumed (req w) = [] then Obj ''root'' else PyNone, w)"

text \<open>A request that carries a view name from earlier and has two segments left.\<close>

definition old_view :: "nat world" where
  "old_view = set_view_name (Some ''old'') (start [''a'', ''b''])"

section \<open>The loop, one iteration at a time\<close>

lemma resolve_loop_done:
  "unconsumed (req w) = [] \<Longrightarrow>
   resolve_loop consume a (w, log) = Some (LoopDone, a, (w, log))"
  by (subst resolve_loop.simps) simp

lemma resolve_loop_step:
  "unconsumed (req w) \<noteq> [] \<Longrightarrow>
   consume (registry_of w a) w = (nxt, w1) \<Longrightarrow>
   resolve_loop consume a (w, log) =
     (case nxt of
        PyNone \<Rightarrow> Some (LoopBreak, a, (w1, log @ [ConsumeCall a]))
      | Obj x \<Rightarrow> Some (LoopReturn (Obj x), a, (w1, log @ [ConsumeCall a]))
      | AppRef b \<Rightarrow>
          resolve_loop consume b (set_app b (set_parent b a w1), log @ [ConsumeCall a]))"
  by (subst resolve_loop.simps) (simp split: pyobj.split)

lemmas resolve_loop_induct = resolve_loop.raw_induct [rotated 1, consumes 1]

text \<open>
  What each way of leaving the loop says about the last iteration: after \<open>LoopDone\<close>
  the stack is empty; \<open>LoopBreak\<close> follows a \<open>consume\<close> call that returned \<open>None\<close>,
  \<open>LoopReturn\<close> one that returned an object that is not an application.
\<close>

lemma resolve_loop_exit:
  assumes "resolve_loop consume a s = Some y"
  shows "(fst y = LoopDone \<longrightarrow> unconsumed (req (fst (snd (snd y)))) = [])
   \<and> (fst y = LoopBreak \<longrightarrow>
        (\<exists>w0. unconsumed (req w0) \<noteq> []
             \<and> consume (registry_of w0 (fst (snd y))) w0 = (PyNone, fst (snd (snd y)))))
   \<and> (\<forall>v. fst y = LoopReturn v \<longrightarrow>
        (\<exists>w0 x. v = Obj x \<and> unconsumed (req w0) \<noteq> []
             \<and> consume (registry_of w0 (fst (snd y))) w0 = (v, fst (snd (snd y)))))"
  using assms
proof (induct consume a s y rule: resolve_loop_induct)
  case (1 f consume a s y)
  show ?case
  proof (cases "unconsumed (req (fst s)) = []")
    case True
    with 1(2) show ?thesis by auto
  next
    case False
    obtain nxt w1 where c: "consume (registry_of (fst s) a) (fst s) = (nxt, w1)"
      by (cases "consume (registry_of (fst s) a) (fst s)")
    show ?thesis
    proof (cases nxt)
      case PyNone
      with 1(2) False c show ?thesis by auto
    next
      case (AppRef b)
      with 1(2) False c have "f consume b
            (set_app b (set_parent b a w1), snd s @ [ConsumeCall a]) = Some y" by simp
      then show ?thesis by (rule 1(1))
    next
      case (Obj x)
      with 1(2) False c show ?thesis by auto
    qed
  qed
qed

lemmas sample_defs =
  start_def fresh_apps_def pop_segment_def registry_of_def set_app_def set_parent_def
  set_view_name_def

section \<open>View-name derivation\<close>

lemma lstrip_plus_decomp: "\<exists>k. s = replicate k CHR ''+'' @ lstrip ''+'' s"
proof (induction s)
  case Nil
  show ?case by (simp add: lstrip_def)
next
  case (Cons c s)
  show ?case
  proof (cases "c = CHR ''+''")
    case True
    from Cons obtain k where "s = replicate k CHR ''+'' @ lstrip ''+'' s" by blast
    then have "c # s = replicate (Suc k) CHR ''+'' @ lstrip ''+'' (c # s)"
      using True by (simp add: lstrip_def)
    then show ?thesis by blast
  next
    case False
    then have "c # s = replicate 0 CHR ''+'' @ lstrip ''+'' (c # s)"
      by (simp add: lstrip_def)
    then show ?thesis by blast
  qed
qed

lemma lstrip_plus_head: "lstrip ''+'' s = c # t \<Longrightarrow> c \<noteq> CHR ''+''"
  unfolding lstrip_def using hd_dropWhile [of "\<lambda>c. c \<in> set ''+''" s] by auto

text \<open>
  Claim C5. The view name derived from the leftover stack: no segment gives the empty
  string; one segment \<open>s\<close> gives \<open>s\<close> without its leading \<open>+\<close> characters, that is
  \<open>s\<close> without its first \<open>k\<close> characters, where those are all \<open>+\<close> and the next one,
  if there is one, is not; so \<open>+edit\<close> and \<open>edit\<close> both give \<open>edit\<close>; two or more
  segments give no view name.
\<close>

theorem get_view_name_cases:
  "get_view_name [] = Some ''''
   \<and> (\<exists>k. get_view_name [s] = Some (drop k s) \<and> take k s = replicate k CHR ''+''
          \<and> k \<le> length s \<and> (k < length s \<longrightarrow> s ! k \<noteq> CHR ''+''))
   \<and> get_view_name [''+edit''] = Some ''edit''
   \<and> get_view_name [''edit''] = Some ''edit''
   \<and> (2 \<le> length stack \<longrightarrow> get_view_name stack = None)"
proof -
  have a: "get_view_name [] = Some ''''"
    by (simp add: get_view_name_def DEFAULT_NAME_def)
  obtain k where k: "s = replicate k CHR ''+'' @ lstrip ''+'' s"
    using lstrip_plus_decomp by blast
  have b1: "get_view_name [s] = Some (lstrip ''+'' s)"
    by (simp add: get_view_name_def)
  have len: "length s = k + length (lstrip ''+'' s)"
    using arg_cong [OF k, of length] by simp
  have b2: "drop k s = lstrip ''+'' s"
    using arg_cong [OF k, of "drop k"] by simp
  have b3: "take k s = replicate k CHR ''+''"
    using arg_cong [OF k, of "take k"] by simp
  have b4: "k < length s \<longrightarrow> s ! k \<noteq> CHR ''+''"
  proof
    assume "k < length s"
    then obtain c t where ct: "lstrip ''+'' s = c # t"
      using len by (cases "lstrip ''+'' s") auto
    have "s ! k = (replicate k CHR ''+'' @ lstrip ''+'' s) ! k" using k by simp
    also have "\<dots> = c" using ct by (simp add: nth_append)
    finally show "s ! k \<noteq> CHR ''+''" using lstrip_plus_head [OF ct] by simp
  qed
  have b: "\<exists>k. get_view_name [s] = Some (drop k s) \<and> take k s = replicate k CHR ''+''
          \<and> k \<le> length s \<and> (k < length s \<longrightarrow> s ! k \<noteq> CHR ''+'')"
    using b1 b2 b3 b4 len by (intro exI [of _ k]) simp
  have c: "get_view_name [''+edit''] = Some ''edit''"
    by (simp add: get_view_name_def lstrip_def)
  have d: "get_view_name [''edit''] = Some ''edit''"
    by (simp add: get_view_name_def lstrip_def)
  have e: "2 \<le> length stack \<longrightarrow> get_view_name stack = None"
    by (simp add: get_view_name_def)
  from a b c d e show ?thesis by blast
qed

theorem get_view_name_cases_witness:
  "get_view_name [''++a+'', ''b''] = None \<and> get_view_name [''++a+''] = Some ''a+''"
  using get_view_name_cases [of "''++a+''" "[''++a+'', ''b'']"]
  by (simp add: get_view_name_def lstrip_def)

section \<open>Dispatch\<close>

lemma get_view_name_None_iff: "get_view_name stack = None \<longleftrightarrow> 2 \<le> length stack"
  by (cases stack) (auto simp: get_view_name_def Let_def Suc_le_eq)

lemma resolve_response_not_found:
  "2 \<le> length (unconsumed (req w)) \<Longrightarrow>
   resolve_response get_view obj (w, log) = (Inl HTTPNotFound, (set_view_name None w, log))"
  by (simp add: resolve_response_def get_view_name_None_iff [THEN iffD2])

lemma resolve_response_dispatch:
  "get_view_name (unconsumed (req w)) = Some n \<Longrightarrow>
   resolve_response get_view obj (w, log) =
     (fst (get_view (app (req w)) obj (set_view_name (Some n) w)),
      (snd (get_view (app (req w)) obj (set_view_name (Some n) w)),
       log @ [GetViewCall (app (req w)) obj]))"
  by (simp add: resolve_response_def set_view_name_def split: prod.splits)

text \<open>
  Claim C6. With two or more segments left after object resolution,
  \<open>resolve_response\<close> raises \<open>HTTPNotFound\<close>; the log of calls is as before, so
  \<open>get_view\<close> was not called, and the outcome is the same for every view registry.
\<close>

theorem resolve_response_two_or_more:
  "2 \<le> length (unconsumed (req w)) \<Longrightarrow>
   fst (resolve_response get_view obj (w, log)) = Inl HTTPNotFound
   \<and> snd (snd (resolve_response get_view obj (w, log))) = log
   \<and> resolve_response get_view obj (w, log) = resolve_response get_view' obj (w, log)"
  by (simp add: resolve_response_not_found)

theorem resolve_response_two_or_more_witness:
  "2 \<le> length (unconsumed (req (start [''+edit'', ''extra''])))
   \<and> fst (resolve_response echo_view (Obj ''item'') (start [''+edit'', ''extra''], []))
       = Inl HTTPNotFound"
  using resolve_response_two_or_more
    [of "start [''+edit'', ''extra'']" echo_view "Obj ''item''" "[]" echo_view]
  by (simp add: start_def)

text \<open>
  Claim C10. With two or more segments left, \<open>resolve_response\<close> has stored \<open>None\<close> in
  \<open>request.view_name\<close> when it raises: the world after the failure is the world before
  with that one field overwritten, whatever it held.
\<close>

theorem resolve_response_view_name_None:
  "2 \<le> length (unconsumed (req w)) \<Longrightarrow>
   fst (resolve_response get_view obj (w, log)) = Inl HTTPNotFound
   \<and> fst (snd (resolve_response get_view obj (w, log)))
       = w\<lparr>req := (req w)\<lparr>view_name := None\<rparr>\<rparr>
   \<and> view_name (req (fst (snd (resolve_response get_view obj (w, log))))) = None"
  by (simp add: resolve_response_not_found set_view_name_def)

theorem resolve_response_view_name_None_witness:
  "2 \<le> length (unconsumed (req old_view)) \<and> view_name (req old_view) = Some ''old''
   \<and> view_name (req (fst (snd (resolve_response echo_view (Obj ''item'') (old_view, []))))) = None"
  using resolve_response_view_name_None [of old_view echo_view "Obj ''item''" "[]"]
  by (simp add: old_view_def start_def set_view_name_def)

section \<open>After the loop\<close>

lemma resolve_model_after_loop:
  "resolve_loop consume (app (req w)) (w, log) = Some (ex, a, (w1, log1)) \<Longrightarrow>
   resolve_model consume (w, log) =
     (case ex of
        LoopReturn nxt \<Rightarrow> Some (nxt, (w1, log1))
      | _ \<Rightarrow>
        if unconsumed (req w1) = [] then
          Some (fst (consume (registry_of w1 a) w1),
                (snd (consume (registry_of w1 a) w1), log1 @ [ConsumeCall a]))
        else Some (PyNone, (w1, log1)))"
  by (simp add: resolve_model_def split: loop_exit.splits prod.splits)

lemma resolve_model_no_segments:
  "unconsumed (req w) = [] \<Longrightarrow>
   resolve_model consume (w, log) =
     Some (fst (consume (registry_of w (app (req w))) w),
           (snd (consume (registry_of w (app (req w))) w),
            log @ [ConsumeCall (app (req w))]))"
  using resolve_model_after_loop [OF resolve_loop_done [of w consume "app (req w)" log]]
  by simp

text \<open>
  Claim C8. Entered with an empty stack, \<open>resolve_model\<close> calls \<open>consume\<close> once, on the
  path registry of \<open>request.app\<close>, and returns what that call returns: the result and
  the world are those of the one call, and the log grows by that one call.
\<close>

theorem resolve_model_empty_stack:
  "unconsumed (req w) = [] \<Longrightarrow>
   resolve_model consume (w, log) =
     Some (fst (consume (registry_of w (app (req w))) w),
           (snd (consume (registry_of w (app (req w))) w),
            log @ [ConsumeCall (app (req w))]))"
  by (rule resolve_model_no_segments)

theorem resolve_model_empty_stack_witness:
  "unconsumed (req (set_app 1 (start []))) = []
   \<and> resolve_model mount_consume (set_app 1 (start []), [])
       = Some (Obj ''root'', (set_app 1 (start []), [ConsumeCall 1]))"
  using resolve_model_empty_stack [of "set_app 1 (start [])" mount_consume "[]"]
  by (simp add: sample_defs mount_consume_def)



section \<open>Mount transitions and the exits of \<open>resolve_model\<close>\<close>



text \<open>
  Claim C4, as amended. After the loop \<open>resolve_model\<close> makes the final \<open>consume\<close>
  call, on the current application's registry, and returns its result, exactly when the
  stack is empty at that point: always after the loop condition failed, and also after
  a not-found signal from a \<open>consume\<close> call that popped every remaining segment. After
  a not-found signal with segments left it returns \<open>None\<close> and makes no further call,
  and after a \<open>return\<close> inside the loop it makes no further call either.
\<close>

theorem resolve_model_final_consume:
  assumes loop: "resolve_loop consume (app (req w)) (w, log) = Some (ex, a, (w1, log1))"
  shows "(ex = LoopDone \<longrightarrow> unconsumed (req w1) = [])
       \<and> ((ex = LoopDone \<or> ex = LoopBreak) \<and> unconsumed (req w1) = [] \<longrightarrow>
            resolve_model consume (w, log) =
              Some (fst (consume (registry_of w1 a) w1),
                    (snd (consume (registry_of w1 a) w1), log1 @ [ConsumeCall a])))
       \<and> (ex = LoopBreak \<and> unconsumed (req w1) \<noteq> [] \<longrightarrow>
            resolve_model consume (w, log) = Some (PyNone, (w1, log1)))
       \<and> (\<forall>v. ex = LoopReturn v \<longrightarrow>
            resolve_model consume (w, log) = Some (v, (w1, log1)))"
proof -
  have drained: "ex = LoopDone \<longrightarrow> unconsumed (req w1) = []"
    using resolve_loop_exit [OF loop] by simp
  from resolve_model_after_loop [OF loop] drained show ?thesis
    by (cases ex) simp_all
qed

theorem resolve_model_final_consume_witness:
  "resolve_loop mount_consume (app (req (start [''sub'']))) (start [''sub''], [])
     = Some (LoopDone, 1, (set_app 1 (set_parent 1 0 (start [])), [ConsumeCall 0]))
   \<and> resolve_model mount_consume (start [''sub''], [])
     = Some (Obj ''root'',
         (set_app 1 (set_parent 1 0 (start [])), [ConsumeCall 0, ConsumeCall 1]))
   \<and> resolve_loop mount_consume (app (req (start [''missing'', ''x''])))
       (start [''missing'', ''x''], [])
     = Some (LoopBreak, 0, (start [''missing'', ''x''], [ConsumeCall 0]))
   \<and> resolve_model mount_consume (start [''missing'', ''x''], [])
     = Some (PyNone, (start [''missing'', ''x''], [ConsumeCall 0]))"
proof -
  have l1: "resolve_loop mount_consume (app (req (start [''sub'']))) (start [''sub''], [])
     = Some (LoopDone, 1, (set_app 1 (set_parent 1 0 (start [])), [ConsumeCall 0]))"
    by (simp add: resolve_loop_step resolve_loop_done sample_defs mount_consume_def)
  have l2: "resolve_loop mount_consume (app (req (start [''missing'', ''x''])))
       (start [''missing'', ''x''], [])
     = Some (LoopBreak, 0, (start [''missing'', ''x''], [ConsumeCall 0]))"
    by (simp add: resolve_loop_step resolve_loop_done sample_defs mount_consume_def)
  from resolve_model_final_consume [OF l1]
  have r1: "resolve_model mount_consume (start [''sub''], [])
     = Some (Obj ''root'',
         (set_app 1 (set_parent 1 0 (start [])), [ConsumeCall 0, ConsumeCall 1]))"
    by (simp add: sample_defs mount_consume_def)
  from resolve_model_final_consume [OF l2]
  have r2: "resolve_model mount_consume (start [''missing'', ''x''], [])
     = Some (PyNone, (start [''missing'', ''x''], [ConsumeCall 0]))"
    by (simp add: sample_defs)
  from l1 r1 l2 r2 show ?thesis by simp
qed

text \<open>
  The claim C4 as stated fails: \<open>draining_consume\<close> signals not-found in the loop, so
  the loop is left by \<open>break\<close>; the stack is empty by then, and the final \<open>consume\<close>
  call is made and its result returned.
\<close>

theorem final_consume_after_not_found:
  "resolve_loop draining_consume 0 (start [''x''], [])
     = Some (LoopBreak, 0, (start [], [ConsumeCall 0]))
   \<and> resolve_model draining_consume (start [''x''], [])
     = Some (Obj ''root'', (start [], [ConsumeCall 0, ConsumeCall 0]))"
  by (simp add: resolve_model_def resolve_loop_step resolve_loop_done sample_defs
      draining_consume_def)

section \<open>Not-found during resolution\<close>

text \<open>
  Claim C1, as amended. When the loop is left by \<open>break\<close>, that is after a \<open>consume\<close>
  call that returned \<open>None\<close>, and segments are left, \<open>resolve_model\<close> returns \<open>None\<close>
  and raises nothing. With two or more segments left \<open>publish\<close> then raises
  \<open>HTTPNotFound\<close> and \<open>get_view\<close> is not called. With exactly one segment left the
  view name is that segment without its leading \<open>+\<close> characters, \<open>get_view\<close> is called
  with \<open>None\<close> as the object, and the outcome of \<open>publish\<close> is the outcome of that call.
\<close>

theorem publish_after_not_found:
  assumes loop: "resolve_loop consume (app (req w)) (w, log) = Some (LoopBreak, a, (w1, log1))"
    and left: "unconsumed (req w1) \<noteq> []"
  shows "(\<exists>w0. unconsumed (req w0) \<noteq> [] \<and> consume (registry_of w0 a) w0 = (PyNone, w1))
       \<and> resolve_model consume (w, log) = Some (PyNone, (w1, log1))
       \<and> (2 \<le> length (unconsumed (req w1)) \<longrightarrow>
            publish consume get_view (w, log) =
              Some (Inl HTTPNotFound, (set_view_name None w1, log1)))
       \<and> (\<forall>seg. unconsumed (req w1) = [seg] \<longrightarrow>
            publish consume get_view (w, log) =
              Some (fst (get_view (app (req w1)) PyNone
                           (set_view_name (Some (lstrip ''+'' seg)) w1)),
                    (snd (get_view (app (req w1)) PyNone
                            (set_view_name (Some (lstrip ''+'' seg)) w1)),
                     log1 @ [GetViewCall (app (req w1)) PyNone])))"
proof -
  have sig: "\<exists>w0. unconsumed (req w0) \<noteq> [] \<and> consume (registry_of w0 a) w0 = (PyNone, w1)"
    using resolve_loop_exit [OF loop] by simp
  have model: "resolve_model consume (w, log) = Some (PyNone, (w1, log1))"
    using resolve_model_after_loop [OF loop] left by simp
  have pub: "publish consume get_view (w, log) =
      Some (resolve_response get_view PyNone (w1, log1))"
    using model by (simp add: publish_def)
  have many: "2 \<le> length (unconsumed (req w1)) \<longrightarrow>
      publish consume get_view (w, log) =
        Some (Inl HTTPNotFound, (set_view_name None w1, log1))"
    using pub by (simp add: resolve_response_not_found)
  have one: "\<forall>seg. unconsumed (req w1) = [seg] \<longrightarrow>
      publish consume get_view (w, log) =
        Some (fst (get_view (app (req w1)) PyNone
                     (set_view_name (Some (lstrip ''+'' seg)) w1)),
              (snd (get_view (app (req w1)) PyNone
                      (set_view_name (Some (lstrip ''+'' seg)) w1)),
               log1 @ [GetViewCall (app (req w1)) PyNone]))"
  proof (intro allI impI)
    fix seg assume "unconsumed (req w1) = [seg]"
    then have "get_view_name (unconsumed (req w1)) = Some (lstrip ''+'' seg)"
      by (simp add: get_view_name_def)
    from resolve_response_dispatch [OF this] pub
    show "publish consume get_view (w, log) =
        Some (fst (get_view (app (req w1)) PyNone
                     (set_view_name (Some (lstrip ''+'' seg)) w1)),
              (snd (get_view (app (req w1)) PyNone
                      (set_view_name (Some (lstrip ''+'' seg)) w1)),
               log1 @ [GetViewCall (app (req w1)) PyNone]))"
      by simp
  qed
  from sig model many one show ?thesis by blast
qed

theorem publish_after_not_found_witness:
  "resolve_loop mount_consume (app (req (start [''missing'', ''x''])))
       (start [''missing'', ''x''], [])
     = Some (LoopBreak, 0, (start [''missing'', ''x''], [ConsumeCall 0]))
   \<and> unconsumed (req (start [''missing'', ''x''])) \<noteq> []
   \<and> publish mount_consume echo_view (start [''missing'', ''x''], [])
     = Some (Inl HTTPNotFound,
         (set_view_name None (start [''missing'', ''x'']), [ConsumeCall 0]))
   \<and> resolve_loop mount_consume (app (req (start [''+missing''])))
       (start [''+missing''], [])
     = Some (LoopBreak, 0, (start [''+missing''], [ConsumeCall 0]))
   \<and> unconsumed (req (start [''+missing''])) \<noteq> []
   \<and> publish mount_consume echo_view (start [''+missing''], [])
     = Some (Inr ''missing'',
         (set_view_name (Some ''missing'') (start [''+missing'']),
          [ConsumeCall 0, GetViewCall 0 PyNone]))"
proof -
  have l2: "resolve_loop mount_consume (app (req (start [''missing'', ''x''])))
       (start [''missing'', ''x''], [])
     = Some (LoopBreak, 0, (start [''missing'', ''x''], [ConsumeCall 0]))"
    by (simp add: resolve_loop_step sample_defs mount_consume_def)
  have n2: "unconsumed (req (start [''missing'', ''x''])) \<noteq> []"
    by (simp add: start_def)
  have l1: "resolve_loop mount_consume (app (req (start [''+missing''])))
       (start [''+missing''], [])
     = Some (LoopBreak, 0, (start [''+missing''], [ConsumeCall 0]))"
    by (simp add: resolve_loop_step sample_defs mount_consume_def)
  have n1: "unconsumed (req (start [''+missing''])) \<noteq> []"
    by (simp add: start_def)
  from publish_after_not_found [OF l2 n2, of echo_view]
  have p2: "publish mount_consume echo_view (start [''missing'', ''x''], [])
     = Some (Inl HTTPNotFound,
         (set_view_name None (start [''missing'', ''x'']), [ConsumeCall 0]))"
    by (simp add: start_def)
  from publish_after_not_found [OF l1 n1, of echo_view]
  have p1: "publish mount_consume echo_view (start [''+missing''], [])
     = Some (Inr ''missing'',
         (set_view_name (Some ''missing'') (start [''+missing'']),
          [ConsumeCall 0, GetViewCall 0 PyNone]))"
    by (simp add: sample_defs echo_view_def lstrip_def)
  from l2 n2 p2 l1 n1 p1 show ?thesis by simp
qed

text \<open>
  The claim C1 as stated fails: for the path \<open>missing\<close> the registry signals not-found
  with the one segment left, the view name \<open>missing\<close> is derived, \<open>get_view\<close> is called
  with \<open>None\<close> as the object, and \<open>publish\<close> returns the response of the handler.
\<close>

theorem dispatch_on_unresolved_object:
  "mount_consume (registry_of (start [''missing'']) 0) (start [''missing''])
     = (PyNone, start [''missing''])
   \<and> unconsumed (req (start [''missing''])) = [''missing'']
   \<and> resolve_model mount_consume (start [''missing''], [])
     = Some (PyNone, (start [''missing''], [ConsumeCall 0]))
   \<and> publish mount_consume echo_view (start [''missing''], [])
     = Some (Inr ''missing'',
         (set_view_name (Some ''missing'') (start [''missing'']),
          [ConsumeCall 0, GetViewCall 0 PyNone]))"
  by (simp add: publish_def resolve_model_def resolve_response_def get_view_name_def
      lstrip_def resolve_loop_step sample_defs mount_consume_def echo_view_def)

section \<open>Termination of the loop\<close>

lemma resolve_loop_calls:
  assumes shrink: "consumes_on_mount consume"
  shows "\<exists>ex a' w' calls.
           resolve_loop consume a (w, log) = Some (ex, a', (w', log @ calls))
           \<and> length calls \<le> length (unconsumed (req w))"
proof (induction "length (unconsumed (req w))" arbitrary: a w log rule: less_induct)
  case less
  show ?case
  proof (cases "unconsumed (req w) = []")
    case True
    then have "resolve_loop consume a (w, log) = Some (LoopDone, a, (w, log @ []))"
      by (simp add: resolve_loop_done)
    then show ?thesis by (metis list.size(3) le0)
  next
    case False
    obtain nxt w1 where c: "consume (registry_of w a) w = (nxt, w1)"
      by (cases "consume (registry_of w a) w")
    have step: "resolve_loop consume a (w, log) =
       (case nxt of
          PyNone \<Rightarrow> Some (LoopBreak, a, (w1, log @ [ConsumeCall a]))
        | Obj x \<Rightarrow> Some (LoopReturn (Obj x), a, (w1, log @ [ConsumeCall a]))
        | AppRef b \<Rightarrow>
            resolve_loop consume b (set_app b (set_parent b a w1), log @ [ConsumeCall a]))"
      using False c by (rule resolve_loop_step)
    have pos: "1 \<le> length (unconsumed (req w))" using False by (cases "unconsumed (req w)") auto
    show ?thesis
    proof (cases nxt)
      case PyNone
      with step have "resolve_loop consume a (w, log) =
          Some (LoopBreak, a, (w1, log @ [ConsumeCall a]))" by simp
      with pos show ?thesis by (metis length_Cons list.size(3) One_nat_def)
    next
      case (Obj x)
      with step have "resolve_loop consume a (w, log) =
          Some (LoopReturn (Obj x), a, (w1, log @ [ConsumeCall a]))" by simp
      with pos show ?thesis by (metis length_Cons list.size(3) One_nat_def)
    next
      case (AppRef b)
      let ?w2 = "set_app b (set_parent b a w1)"
      have same: "unconsumed (req ?w2) = unconsumed (req w1)"
        by (simp add: set_app_def set_parent_def)
      have "length (unconsumed (req w1)) < length (unconsumed (req w))"
        using shrink c AppRef unfolding consumes_on_mount_def
        by (metis fst_conv snd_conv)
      then have smaller: "length (unconsumed (req ?w2)) < length (unconsumed (req w))"
        using same by simp
      from less [OF smaller, of b "log @ [ConsumeCall a]"]
      obtain ex a' w' calls where
        rest: "resolve_loop consume b (?w2, log @ [ConsumeCall a]) =
                 Some (ex, a', (w', (log @ [ConsumeCall a]) @ calls))"
        and len: "length calls \<le> length (unconsumed (req ?w2))"
        by blast
      from step AppRef rest
      have "resolve_loop consume a (w, log) =
          Some (ex, a', (w', log @ (ConsumeCall a # calls)))" by simp
      moreover have "length (ConsumeCall a # calls) \<le> length (unconsumed (req w))"
        using len smaller by simp
      ultimately show ?thesis by blast
    qed
  qed
qed

text \<open>
  Claim C3, as amended. Provided every \<open>consume\<close> call that returns an application
  pops at least one segment, \<open>resolve_model\<close> returns, and on a request that holds
  \<open>n\<close> segments it makes at most \<open>n + 1\<close> calls of \<open>consume\<close>.
\<close>

theorem resolve_model_terminates:
  assumes shrink: "consumes_on_mount consume"
  shows "\<exists>obj w' calls.
           resolve_model consume (w, log) = Some (obj, (w', log @ calls))
           \<and> length calls \<le> length (unconsumed (req w)) + 1"
proof -
  from resolve_loop_calls [OF shrink, of "app (req w)" w log]
  obtain ex a' w' calls where
    loop: "resolve_loop consume (app (req w)) (w, log) = Some (ex, a', (w', log @ calls))"
    and len: "length calls \<le> length (unconsumed (req w))"
    by blast
  note after = resolve_model_after_loop [OF loop]
  show ?thesis
  proof (cases "(\<exists>v. ex = LoopReturn v) \<or> unconsumed (req w') \<noteq> []")
    case True
    then have "\<exists>obj. resolve_model consume (w, log) = Some (obj, (w', log @ calls))"
      using after by (cases ex) auto
    with len show ?thesis by (metis le_SucI Suc_eq_plus1)
  next
    case False
    then have "resolve_model consume (w, log) =
        Some (fst (consume (registry_of w' a') w'),
              (snd (consume (registry_of w' a') w'), log @ (calls @ [ConsumeCall a'])))"
      using after by (cases ex) auto
    moreover have "length (calls @ [ConsumeCall a']) \<le> length (unconsumed (req w)) + 1"
      using len by simp
    ultimately show ?thesis by blast
  qed
qed

theorem resolve_model_terminates_witness:
  "consumes_on_mount mount_consume
   \<and> (\<exists>obj w' calls.
         resolve_model mount_consume (start [''sub''], []) = Some (obj, (w', [] @ calls))
         \<and> length calls \<le> length (unconsumed (req (start [''sub'']))) + 1)
   \<and> resolve_model mount_consume (start [''sub''], [])
       = Some (Obj ''root'',
           (set_app 1 (set_parent 1 0 (start [])), [ConsumeCall 0, ConsumeCall 1]))"
proof -
  have s: "consumes_on_mount mount_consume"
    by (auto simp: consumes_on_mount_def mount_consume_def pop_segment_def
        split: list.splits if_splits)
  have r: "resolve_model mount_consume (start [''sub''], [])
       = Some (Obj ''root'',
           (set_app 1 (set_parent 1 0 (start [])), [ConsumeCall 0, ConsumeCall 1]))"
    by (simp add: resolve_model_def resolve_loop_step resolve_loop_done sample_defs
        mount_consume_def)
  from s r resolve_model_terminates [OF s, of "start [''sub'']" "[]"] show ?thesis
    by blast
qed

lemma self_mount_never_returns:
  assumes "resolve_loop consume a s = Some y"
  shows "consume = self_mount_consume \<longrightarrow> unconsumed (req (fst s)) = []"
  using assms
proof (induct consume a s y rule: resolve_loop_induct)
  case (1 f consume a s y)
  show ?case
  proof (intro impI)
    assume self: "consume = self_mount_consume"
    show "unconsumed (req (fst s)) = []"
    proof (rule ccontr)
      assume more: "unconsumed (req (fst s)) \<noteq> []"
      with 1(2) self have "f consume 0
          (set_app 0 (set_parent 0 a (fst s)), snd s @ [ConsumeCall a]) = Some y"
        by (simp add: self_mount_consume_def)
      from 1(1) [OF this] self
      have "unconsumed (req (set_app 0 (set_parent 0 a (fst s)))) = []" by simp
      with more show False by (simp add: set_app_def set_parent_def)
    qed
  qed
qed

text \<open>
  The claim C3 as stated fails: with a registry that returns an application and pops
  nothing, the loop never ends.
\<close>

theorem resolve_model_runs_forever:
  "resolve_model self_mount_consume (start [''a''], []) = None"
proof -
  have "resolve_loop self_mount_consume 0 (start [''a''], []) = None"
  proof (cases "resolve_loop self_mount_consume 0 (start [''a''], [])")
    case None
    then show ?thesis .
  next
    case (Some y)
    from self_mount_never_returns [OF this]
    have "unconsumed (req (start [''a''])) = []" by simp
    then show ?thesis by (simp add: start_def)
  qed
  then show ?thesis by (simp add: resolve_model_def start_def)
qed

section \<open>What a request writes\<close>

lemma write_parents_config: "config (write_parents path st x) = config (st x)"
  by (induction path st rule: write_parents.induct) (simp_all add: fun_upd_def)

lemma write_parents_parent:
  "parent (write_parents path st x) \<noteq> parent (st x) \<Longrightarrow> x \<in> set (tl path)"
proof (induction path st rule: write_parents.induct)
  case (1 a b rest st)
  show ?case
  proof (cases "x = b")
    case True
    then show ?thesis by simp
  next
    case False
    with 1 show ?thesis by (simp add: fun_upd_def)
  qed
qed simp_all

lemma resolve_loop_chain:
  assumes "resolve_loop consume a s = Some y"
  shows "consume_keeps_apps consume \<longrightarrow>
     (\<exists>calls rest. snd (snd (snd y)) = snd s @ calls
        \<and> visited calls (fst y) (fst (snd y)) = a # rest
        \<and> successively (is_mount consume) (a # rest)
        \<and> apps (fst (snd (snd y))) = write_parents (a # rest) (apps (fst s)))"
  using assms
proof (induct consume a s y rule: resolve_loop_induct)
  case (1 f consume a s y)
  show ?case
  proof (intro impI)
    assume keeps: "consume_keeps_apps consume"
    show "\<exists>calls rest. snd (snd (snd y)) = snd s @ calls
        \<and> visited calls (fst y) (fst (snd y)) = a # rest
        \<and> successively (is_mount consume) (a # rest)
        \<and> apps (fst (snd (snd y))) = write_parents (a # rest) (apps (fst s))"
    proof (cases "unconsumed (req (fst s)) = []")
      case True
      with 1(2) have y: "y = (LoopDone, a, s)" by simp
      have "snd (snd (snd y)) = snd s @ [] \<and> visited [] (fst y) (fst (snd y)) = a # []
        \<and> successively (is_mount consume) (a # [])
        \<and> apps (fst (snd (snd y))) = write_parents (a # []) (apps (fst s))"
        using y by (simp add: visited_def)
      then show ?thesis by blast
    next
      case False
      obtain nxt w1 where c: "consume (registry_of (fst s) a) (fst s) = (nxt, w1)"
        by (cases "consume (registry_of (fst s) a) (fst s)")
      have same: "apps w1 = apps (fst s)"
        using keeps c unfolding consume_keeps_apps_def by (metis snd_conv)
      show ?thesis
      proof (cases nxt)
        case PyNone
        with 1(2) False c have y: "y = (LoopBreak, a, (w1, snd s @ [ConsumeCall a]))" by simp
        have "snd (snd (snd y)) = snd s @ [ConsumeCall a]
          \<and> visited [ConsumeCall a] (fst y) (fst (snd y)) = a # []
          \<and> successively (is_mount consume) (a # [])
          \<and> apps (fst (snd (snd y))) = write_parents (a # []) (apps (fst s))"
          using y same by (simp add: visited_def)
        then show ?thesis by blast
      next
        case (Obj x)
        with 1(2) False c have y: "y = (LoopReturn (Obj x), a, (w1, snd s @ [ConsumeCall a]))"
          by simp
        have "snd (snd (snd y)) = snd s @ [ConsumeCall a]
          \<and> visited [ConsumeCall a] (fst y) (fst (snd y)) = a # []
          \<and> successively (is_mount consume) (a # [])
          \<and> apps (fst (snd (snd y))) = write_parents (a # []) (apps (fst s))"
          using y same by (simp add: visited_def)
        then show ?thesis by blast
      next
        case (AppRef b)
        let ?w2 = "set_app b (set_parent b a w1)"
        from AppRef 1(2) False c
        have "f consume b (?w2, snd s @ [ConsumeCall a]) = Some y" by simp
        from 1(1) [OF this] keeps
        obtain calls2 rest2 where
          log2: "snd (snd (snd y)) = (snd s @ [ConsumeCall a]) @ calls2"
          and vis2: "visited calls2 (fst y) (fst (snd y)) = b # rest2"
          and suc2: "successively (is_mount consume) (b # rest2)"
          and apps2: "apps (fst (snd (snd y))) = write_parents (b # rest2) (apps ?w2)"
          by auto
        have mount: "is_mount consume a b"
          unfolding is_mount_def using False c AppRef by (metis fst_conv)
        have w2: "apps ?w2 = (apps (fst s))(b := (apps (fst s) b)\<lparr>parent := Some a\<rparr>)"
          using same by (simp add: set_app_def set_parent_def)
        have "snd (snd (snd y)) = snd s @ (ConsumeCall a # calls2)
          \<and> visited (ConsumeCall a # calls2) (fst y) (fst (snd y)) = a # (b # rest2)
          \<and> successively (is_mount consume) (a # (b # rest2))
          \<and> apps (fst (snd (snd y))) = write_parents (a # (b # rest2)) (apps (fst s))"
          using log2 vis2 suc2 apps2 mount w2 by (simp add: visited_def)
        then show ?thesis by blast
      qed
    qed
  qed
qed

lemma resolve_loop_environ:
  assumes "resolve_loop consume a s = Some y"
  shows "consume_keeps_environ consume \<longrightarrow>
     environ (req (fst (snd (snd y)))) = environ (req (fst s))"
  using assms
proof (induct consume a s y rule: resolve_loop_induct)
  case (1 f consume a s y)
  show ?case
  proof (intro impI)
    assume keeps: "consume_keeps_environ consume"
    show "environ (req (fst (snd (snd y)))) = environ (req (fst s))"
    proof (cases "unconsumed (req (fst s)) = []")
      case True
      with 1(2) show ?thesis by auto
    next
      case False
      obtain nxt w1 where c: "consume (registry_of (fst s) a) (fst s) = (nxt, w1)"
        by (cases "consume (registry_of (fst s) a) (fst s)")
      have same: "environ (req w1) = environ (req (fst s))"
        using keeps c unfolding consume_keeps_environ_def by (metis snd_conv)
      show ?thesis
      proof (cases nxt)
        case PyNone
        with 1(2) False c same show ?thesis by auto
      next
        case (Obj x)
        with 1(2) False c same show ?thesis by auto
      next
        case (AppRef b)
        from AppRef 1(2) False c
        have "f consume b (set_app b (set_parent b a w1), snd s @ [ConsumeCall a]) = Some y"
          by simp
        from 1(1) [OF this] keeps same show ?thesis
          by (simp add: set_app_def set_parent_def)
      qed
    qed
  qed
qed

lemma resolve_response_frame:
  assumes keeps: "get_view_keeps_apps get_view"
    and run: "resolve_response get_view obj (w, log) = (r, (w', log'))"
  shows "apps w' = apps w \<and> set log \<subseteq> set log'"
proof (cases "get_view_name (unconsumed (req w))")
  case None
  then have "resolve_response get_view obj (w, log) =
      (Inl HTTPNotFound, (set_view_name None w, log))"
    by (simp add: resolve_response_def)
  with run have "w' = set_view_name None w" and "log' = log" by simp_all
  then show ?thesis by (simp add: set_view_name_def)
next
  case (Some n)
  let ?w1 = "set_view_name (Some n) w"
  from resolve_response_dispatch [OF Some, of get_view obj log] run
  have "w' = snd (get_view (app (req w)) obj ?w1)"
    and "log' = log @ [GetViewCall (app (req w)) obj]"
    by simp_all
  moreover have "apps (snd (get_view (app (req w)) obj ?w1)) = apps ?w1"
    using keeps by (simp add: get_view_keeps_apps_def)
  ultimately show ?thesis by (auto simp: set_view_name_def)
qed

lemma consume_targets_set: "x \<in> set (consume_targets cs) \<longleftrightarrow> ConsumeCall x \<in> set cs"
  by (induction cs rule: consume_targets.induct) auto

lemma resolve_response_environ:
  assumes keeps: "get_view_keeps_environ get_view"
    and run: "resolve_response get_view obj (w, log) = (r, (w', log'))"
  shows "environ (req w') = environ (req w)"
proof (cases "get_view_name (unconsumed (req w))")
  case None
  then have "resolve_response get_view obj (w, log) =
      (Inl HTTPNotFound, (set_view_name None w, log))"
    by (simp add: resolve_response_def)
  with run have "w' = set_view_name None w" by simp
  then show ?thesis by (simp add: set_view_name_def)
next
  case (Some n)
  let ?w1 = "set_view_name (Some n) w"
  from resolve_response_dispatch [OF Some, of get_view obj log] run
  have "w' = snd (get_view (app (req w)) obj ?w1)" by simp
  moreover have "environ (req (snd (get_view (app (req w)) obj ?w1))) = environ (req ?w1)"
    using keeps by (simp add: get_view_keeps_environ_def)
  ultimately show ?thesis by (simp add: set_view_name_def)
qed

lemma mount_consume_keeps_apps: "consume_keeps_apps mount_consume"
  by (auto simp: consume_keeps_apps_def mount_consume_def pop_segment_def split: list.splits)

lemma echo_view_keeps_apps: "get_view_keeps_apps echo_view"
  by (auto simp: get_view_keeps_apps_def echo_view_def split: option.splits)

lemma mount_consume_keeps_environ: "consume_keeps_environ mount_consume"
  by (auto simp: consume_keeps_environ_def mount_consume_def pop_segment_def
      split: list.splits)

lemma echo_view_keeps_environ: "get_view_keeps_environ echo_view"
  by (auto simp: get_view_keeps_environ_def echo_view_def split: option.splits)

lemma leaf_consume_keeps_apps: "consume_keeps_apps leaf_consume"
  by (simp add: consume_keeps_apps_def leaf_consume_def)

text \<open>
  Claim C2, as amended. When the collaborators write no field of any application, the
  applications after a run of \<open>publish\<close> are the applications before with
  \<open>next.parent = app\<close> executed along the chain of mount transitions of the run, and
  nothing else: the chain starts at the application of the request; each further member
  was returned by the registry of the one before it; every application is as it was
  except for its \<open>parent\<close> field; \<open>parent\<close> differs only for members of the chain
  after the first, each of which was asked to \<open>consume\<close>; a run without a mount
  transition changes no application. When the collaborators also leave the WSGI
  environment alone, the request differs after the run in at most \<open>unconsumed\<close>,
  \<open>app\<close> and \<open>view_name\<close>.
\<close>

theorem publish_writes_only_parent:
  assumes kc: "consume_keeps_apps consume"
    and kv: "get_view_keeps_apps get_view"
    and run: "publish consume get_view (w, []) = Some (r, (w', log'))"
  shows "\<exists>ex a1 w1 calls.
      resolve_loop consume (app (req w)) (w, []) = Some (ex, a1, (w1, calls))
      \<and> visited calls ex a1 = app (req w) # tl (visited calls ex a1)
      \<and> successively (is_mount consume) (visited calls ex a1)
      \<and> apps w' = write_parents (visited calls ex a1) (apps w)
      \<and> (tl (visited calls ex a1) = [] \<longrightarrow> apps w' = apps w)
      \<and> (\<forall>x. apps w' x = (apps w x)\<lparr>parent := parent (apps w' x)\<rparr>
             \<and> (parent (apps w' x) \<noteq> parent (apps w x) \<longrightarrow>
                  x \<in> set (tl (visited calls ex a1)) \<and> ConsumeCall x \<in> set log'))
      \<and> (consume_keeps_environ consume \<and> get_view_keeps_environ get_view \<longrightarrow>
             environ (req w') = environ (req w))"
proof -
  obtain obj wm logm where
    model: "resolve_model consume (w, []) = Some (obj, (wm, logm))"
    and resp: "resolve_response get_view obj (wm, logm) = (r, (w', log'))"
    using run by (cases "resolve_model consume (w, [])") (auto simp: publish_def)
  obtain ex a1 w1 calls where
    loop: "resolve_loop consume (app (req w)) (w, []) = Some (ex, a1, (w1, calls))"
    using model by (cases "resolve_loop consume (app (req w)) (w, [])")
      (auto simp: resolve_model_def)
  let ?path = "visited calls ex a1"
  from resolve_loop_chain [OF loop] kc
  obtain rest where path: "?path = app (req w) # rest"
    and chain: "successively (is_mount consume) ?path"
    and apps1: "apps w1 = write_parents ?path (apps w)"
    by auto
  have drained: "ex = LoopDone \<longrightarrow> unconsumed (req w1) = []"
    using resolve_loop_exit [OF loop] by simp
  note after = resolve_model_after_loop [OF loop]
  have keep_c: "apps (snd (consume (registry_of w1 a1) w1)) = apps w1"
    using kc by (simp add: consume_keeps_apps_def)
  have mid: "apps wm = apps w1 \<and> set calls \<subseteq> set logm
      \<and> (ex = LoopDone \<longrightarrow> ConsumeCall a1 \<in> set logm)
      \<and> (consume_keeps_environ consume \<longrightarrow> environ (req wm) = environ (req w1))"
  proof (cases "(\<exists>v. ex = LoopReturn v) \<or> unconsumed (req w1) \<noteq> []")
    case True
    then have "wm = w1 \<and> logm = calls \<and> ex \<noteq> LoopDone"
      using after model drained by (cases ex) auto
    then show ?thesis by simp
  next
    case False
    then have "wm = snd (consume (registry_of w1 a1) w1) \<and> logm = calls @ [ConsumeCall a1]"
      using after model by (cases ex) auto
    then show ?thesis using keep_c by (auto simp: consume_keeps_environ_def)
  qed
  from resolve_response_frame [OF kv resp]
  have last: "apps w' = apps wm" and sub: "set logm \<subseteq> set log'" by simp_all
  have exact: "apps w' = write_parents ?path (apps w)"
    using last mid apps1 by simp
  have asked: "ConsumeCall x \<in> set log'" if "x \<in> set ?path" for x
  proof (cases "x \<in> set (consume_targets calls)")
    case True
    then have "ConsumeCall x \<in> set calls" by (simp add: consume_targets_set)
    with mid sub show ?thesis by blast
  next
    case False
    with that have "ex = LoopDone" and "x = a1"
      by (auto simp: visited_def split: if_splits)
    with mid sub show ?thesis by blast
  qed
  have frame: "\<forall>x. apps w' x = (apps w x)\<lparr>parent := parent (apps w' x)\<rparr>
             \<and> (parent (apps w' x) \<noteq> parent (apps w x) \<longrightarrow>
                  x \<in> set (tl ?path) \<and> ConsumeCall x \<in> set log')"
  proof (intro allI conjI impI)
    fix x
    have "config (apps w' x) = config (apps w x)"
      using exact by (simp add: write_parents_config)
    then show "apps w' x = (apps w x)\<lparr>parent := parent (apps w' x)\<rparr>"
      by (simp add: App.equality)
  next
    fix x assume ch: "parent (apps w' x) \<noteq> parent (apps w x)"
    then show "x \<in> set (tl ?path)"
      using exact write_parents_parent [of ?path "apps w" x] by simp
  next
    fix x assume ch: "parent (apps w' x) \<noteq> parent (apps w x)"
    then have "x \<in> set (tl ?path)"
      using exact write_parents_parent [of ?path "apps w" x] by simp
    then have "x \<in> set ?path" by (rule list.set_sel(2) [rotated]) (simp add: path)
    then show "ConsumeCall x \<in> set log'" by (rule asked)
  qed
  have env: "consume_keeps_environ consume \<and> get_view_keeps_environ get_view \<longrightarrow>
             environ (req w') = environ (req w)"
  proof (intro impI, elim conjE)
    assume ec: "consume_keeps_environ consume" and ev: "get_view_keeps_environ get_view"
    from resolve_loop_environ [OF loop] ec
    have "environ (req w1) = environ (req w)" by simp
    moreover from mid ec have "environ (req wm) = environ (req w1)" by simp
    moreover from resolve_response_environ [OF ev resp]
    have "environ (req w') = environ (req wm)" .
    ultimately show "environ (req w') = environ (req w)" by simp
  qed
  have shape: "?path = app (req w) # tl ?path" using path by simp
  have none: "tl ?path = [] \<longrightarrow> apps w' = apps w"
  proof
    assume "tl ?path = []"
    with shape have "?path = [app (req w)]" by simp
    with exact show "apps w' = apps w" by simp
  qed
  from loop shape chain exact none frame env show ?thesis by blast
qed

theorem publish_writes_only_parent_witness:
  "consume_keeps_apps mount_consume \<and> get_view_keeps_apps echo_view
   \<and> consume_keeps_environ mount_consume \<and> get_view_keeps_environ echo_view
   \<and> publish mount_consume echo_view (start [''sub'', ''item'', ''+edit''], [])
       = Some (Inr ''edit'',
           (set_view_name (Some ''edit'') (set_app 1 (set_parent 1 0 (start [''+edit'']))),
            [ConsumeCall 0, ConsumeCall 1, GetViewCall 1 (Obj ''item'')]))
   \<and> visited [ConsumeCall 0, ConsumeCall 1] (LoopReturn (Obj ''item'')) 1 = [0, 1]
   \<and> apps (set_view_name (Some ''edit'') (set_app 1 (set_parent 1 0 (start [''+edit'']))))
       = write_parents [0, 1] (apps (start [''sub'', ''item'', ''+edit'']))
   \<and> parent (apps (start [''sub'', ''item'', ''+edit'']) 1) = None
   \<and> parent (write_parents [0, 1] (apps (start [''sub'', ''item'', ''+edit''])) 1) = Some 0
   \<and> write_parents [0, 1] (apps (start [''sub'', ''item'', ''+edit''])) 0
       = apps (start [''sub'', ''item'', ''+edit'']) 0
   \<and> environ (req (set_view_name (Some ''edit'')
         (set_app 1 (set_parent 1 0 (start [''+edit''])))))
       = environ (req (start [''sub'', ''item'', ''+edit'']))
   \<and> consume_keeps_apps leaf_consume
   \<and> publish leaf_consume echo_view (start [], [])
       = Some (Inr [],
           (set_view_name (Some []) (start []), [ConsumeCall 0, GetViewCall 0 (Obj ''root'')]))
   \<and> visited ([] :: string call list) LoopDone 0 = [0]
   \<and> apps (set_view_name (Some []) (start [])) = apps (start [])"
proof -
  let ?w = "start [''sub'', ''item'', ''+edit'']"
  let ?w' = "set_view_name (Some ''edit'') (set_app 1 (set_parent 1 0 (start [''+edit''])))"
  let ?log' = "[ConsumeCall 0, ConsumeCall 1, GetViewCall 1 (Obj ''item'')]"
  have loop: "resolve_loop mount_consume (app (req ?w)) (?w, [])
      = Some (LoopReturn (Obj ''item''), 1,
          (set_app 1 (set_parent 1 0 (start [''+edit''])), [ConsumeCall 0, ConsumeCall 1]))"
    by (simp add: resolve_loop_step sample_defs mount_consume_def)
  have run: "publish mount_consume echo_view (?w, []) = Some (Inr ''edit'', (?w', ?log'))"
    by (simp add: publish_def resolve_model_def resolve_response_def get_view_name_def
      lstrip_def resolve_loop_step sample_defs mount_consume_def echo_view_def)
  from publish_writes_only_parent [OF mount_consume_keeps_apps echo_view_keeps_apps run]
  obtain ex a1 w1 calls where
    l: "resolve_loop mount_consume (app (req ?w)) (?w, []) = Some (ex, a1, (w1, calls))"
    and exact: "apps ?w' = write_parents (visited calls ex a1) (apps ?w)"
    and env: "consume_keeps_environ mount_consume \<and> get_view_keeps_environ echo_view \<longrightarrow>
             environ (req ?w') = environ (req ?w)"
    by blast
  have vals: "ex = LoopReturn (Obj ''item'')" "a1 = 1"
    "calls = [ConsumeCall 0, ConsumeCall 1]"
    using l unfolding loop by auto
  have path: "visited [ConsumeCall 0, ConsumeCall 1] (LoopReturn (Obj ''item'')) 1 = [0, 1]"
    by (simp add: visited_def)
  from exact vals path have a1: "apps ?w' = write_parents [0, 1] (apps ?w)" by simp
  from env mount_consume_keeps_environ echo_view_keeps_environ
  have a2: "environ (req ?w') = environ (req ?w)" by simp
  have a3: "parent (apps ?w 1) = None"
    "parent (write_parents [0, 1] (apps ?w) 1) = Some 0"
    "write_parents [0, 1] (apps ?w) 0 = apps ?w 0"
    by (simp_all add: sample_defs)
  let ?v = "start []"
  let ?v' = "set_view_name (Some []) (start [])"
  have loop0: "resolve_loop leaf_consume (app (req ?v)) (?v, []) = Some (LoopDone, 0, (?v, []))"
    by (simp add: resolve_loop_done sample_defs)
  have run0: "publish leaf_consume echo_view (?v, [])
      = Some (Inr [], (?v', [ConsumeCall 0, GetViewCall 0 (Obj ''root'')]))"
    by (simp add: publish_def resolve_model_def resolve_response_def get_view_name_def
      DEFAULT_NAME_def resolve_loop_done sample_defs leaf_consume_def echo_view_def)
  from publish_writes_only_parent [OF leaf_consume_keeps_apps echo_view_keeps_apps run0]
  obtain ex0 b0 v1 calls0 where
    l0: "resolve_loop leaf_consume (app (req ?v)) (?v, []) = Some (ex0, b0, (v1, calls0))"
    and exact0: "apps ?v' = write_parents (visited calls0 ex0 b0) (apps ?v)"
    by blast
  have vals0: "ex0 = LoopDone" "b0 = 0" "calls0 = []"
    using l0 unfolding loop0 by auto
  have path0: "visited ([] :: string call list) LoopDone 0 = [0]" by (simp add: visited_def)
  from exact0 vals0 path0 have b1: "apps ?v' = apps ?v" by simp
  from mount_consume_keeps_apps echo_view_keeps_apps mount_consume_keeps_environ
    echo_view_keeps_environ run path a1 a2 a3 leaf_consume_keeps_apps run0 path0 b1
  show ?thesis by simp
qed

text \<open>
  The claim C2 as stated fails: for the path \<open>sub\<close> neither collaborator writes an
  application, and yet after \<open>publish\<close> the \<open>parent\<close> field of the mounted
  application \<open>1\<close>, unset before, refers to application \<open>0\<close>.
\<close>

theorem publish_writes_parent_of_mount:
  "consume_keeps_apps mount_consume \<and> get_view_keeps_apps echo_view
   \<and> parent (apps (start [''sub'']) 1) = None
   \<and> publish mount_consume echo_view (start [''sub''], [])
       = Some (Inr '''',
           (set_view_name (Some '''') (set_app 1 (set_parent 1 0 (start []))),
            [ConsumeCall 0, ConsumeCall 1, GetViewCall 1 (Obj ''root'')]))
   \<and> parent (apps (set_view_name (Some '''') (set_app 1 (set_parent 1 0 (start [])))) 1)
       = Some 0"
proof -
  have run: "publish mount_consume echo_view (start [''sub''], [])
       = Some (Inr '''',
           (set_view_name (Some '''') (set_app 1 (set_parent 1 0 (start []))),
            [ConsumeCall 0, ConsumeCall 1, GetViewCall 1 (Obj ''root'')]))"
    by (simp add: publish_def resolve_model_def resolve_response_def get_view_name_def
      DEFAULT_NAME_def resolve_loop_step resolve_loop_done sample_defs mount_consume_def
      echo_view_def)
  have before: "parent (apps (start [''sub'']) 1) = None" by (simp add: sample_defs)
  have after: "parent (apps (set_view_name (Some '''')
      (set_app 1 (set_parent 1 0 (start [])))) 1) = Some 0" by (simp add: sample_defs)
  from mount_consume_keeps_apps echo_view_keeps_apps before run after show ?thesis by simp
qed

end
